theory Spec2Isabelle
  imports Main "HOL-Library.Word"
begin

unbundle bit_operations_syntax

section \<open>The 128-bit vector register and the SSE operations the header uses\<close>

text \<open>
  \<^verbatim>\<open>typedef __m128i gf2p127_t;\<close>  A field element is one 128-bit register: bit \<open>k\<close> is the
  coefficient of \<open>x^k\<close>.  The low 64-bit lane is lane 0, the high one lane 1.  The cast
  \<^verbatim>\<open>(__uint128_t)m\<close> is the identity on this type.
\<close>

type_synonym m128i = "128 word"
type_synonym gf2p127_t = m128i

definition lo64 :: "m128i \<Rightarrow> 64 word" where
  "lo64 a = ucast a"

definition hi64 :: "m128i \<Rightarrow> 64 word" where
  "hi64 a = ucast (drop_bit 64 a)"

text \<open>The register with high lane \<open>h\<close> and low lane \<open>l\<close>.\<close>

definition set64 :: "64 word \<Rightarrow> 64 word \<Rightarrow> m128i" where
  "set64 h l = push_bit 64 (ucast h) OR ucast l"

text \<open>The 32-bit lane \<open>i\<close> (0 to 3) of a register, and the register made of four of them.\<close>

definition epi32 :: "m128i \<Rightarrow> nat \<Rightarrow> 32 word" where
  "epi32 a i = ucast (drop_bit (32 * i) a)"

definition set32 :: "32 word \<Rightarrow> 32 word \<Rightarrow> 32 word \<Rightarrow> 32 word \<Rightarrow> m128i" where
  "set32 e3 e2 e1 e0 =
     push_bit 96 (ucast e3) OR push_bit 64 (ucast e2) OR push_bit 32 (ucast e1) OR ucast e0"

text \<open>\<^verbatim>\<open>_mm_extract_epi64(a, imm8)\<close>: the 64-bit lane selected by bit 0 of the immediate.\<close>

definition mm_extract_epi64 :: "m128i \<Rightarrow> nat \<Rightarrow> 64 word" where
  "mm_extract_epi64 a imm = (if even imm then lo64 a else hi64 a)"

definition mm_setzero_si128 :: m128i where
  "mm_setzero_si128 = 0"

text \<open>\<^verbatim>\<open>_mm_cvtsi32_si128(int a)\<close>: the 32 bits of \<open>a\<close> in the lowest lane, the upper 96 bits
  zero (the value is zero-extended, also when \<open>a\<close> is negative).\<close>

definition mm_cvtsi32_si128 :: "32 word \<Rightarrow> m128i" where
  "mm_cvtsi32_si128 a = ucast a"

text \<open>\<^verbatim>\<open>_mm_slli_epi64\<close>, \<^verbatim>\<open>_mm_srli_epi64\<close>: each 64-bit lane shifted on its own, zeros
  shifted in; a count above 63 gives the zero register.\<close>

definition mm_slli_epi64 :: "m128i \<Rightarrow> nat \<Rightarrow> m128i" where
  "mm_slli_epi64 a n =
     (if n > 63 then 0 else set64 (push_bit n (hi64 a)) (push_bit n (lo64 a)))"

definition mm_srli_epi64 :: "m128i \<Rightarrow> nat \<Rightarrow> m128i" where
  "mm_srli_epi64 a n =
     (if n > 63 then 0 else set64 (drop_bit n (hi64 a)) (drop_bit n (lo64 a)))"

text \<open>\<^verbatim>\<open>_mm_slli_si128\<close>, \<^verbatim>\<open>_mm_srli_si128\<close>: the whole register shifted by \<open>n\<close> bytes; a
  count above 15 counts as 16.\<close>

definition mm_slli_si128 :: "m128i \<Rightarrow> nat \<Rightarrow> m128i" where
  "mm_slli_si128 a n = push_bit (8 * (if n > 15 then 16 else n)) a"

definition mm_srli_si128 :: "m128i \<Rightarrow> nat \<Rightarrow> m128i" where
  "mm_srli_si128 a n = drop_bit (8 * (if n > 15 then 16 else n)) a"

definition mm_or_si128 :: "m128i \<Rightarrow> m128i \<Rightarrow> m128i" where
  "mm_or_si128 a b = a OR b"

definition mm_xor_si128 :: "m128i \<Rightarrow> m128i \<Rightarrow> m128i" where
  "mm_xor_si128 a b = a XOR b"

text \<open>\<^verbatim>\<open>_MM_SHUFFLE(z, y, x, w)\<close> is \<^verbatim>\<open>(z << 6) | (y << 4) | (x << 2) | w\<close>, and
  \<^verbatim>\<open>_mm_shuffle_epi32(a, imm8)\<close> puts into 32-bit lane \<open>i\<close> of the result the lane of \<open>a\<close>
  named by bits \<open>2i+1..2i\<close> of the immediate.\<close>

definition MM_SHUFFLE :: "nat \<Rightarrow> nat \<Rightarrow> nat \<Rightarrow> nat \<Rightarrow> nat" where
  "MM_SHUFFLE z y x w = z * 64 + y * 16 + x * 4 + w"

definition mm_shuffle_epi32 :: "m128i \<Rightarrow> nat \<Rightarrow> m128i" where
  "mm_shuffle_epi32 a imm =
     set32 (epi32 a (imm div 64 mod 4)) (epi32 a (imm div 16 mod 4))
           (epi32 a (imm div 4 mod 4)) (epi32 a (imm mod 4))"

text \<open>\<^verbatim>\<open>_mm_unpacklo_epi64(a, b)\<close> is (low lane of \<open>a\<close>, low lane of \<open>b\<close>), the first in the
  low lane; \<^verbatim>\<open>_mm_unpackhi_epi64\<close> the same with the high lanes.\<close>

definition mm_unpacklo_epi64 :: "m128i \<Rightarrow> m128i \<Rightarrow> m128i" where
  "mm_unpacklo_epi64 a b = set64 (lo64 b) (lo64 a)"

definition mm_unpackhi_epi64 :: "m128i \<Rightarrow> m128i \<Rightarrow> m128i" where
  "mm_unpackhi_epi64 a b = set64 (hi64 b) (hi64 a)"

text \<open>\<^verbatim>\<open>_mm_alignr_epi8(a, b, n)\<close>: the 256-bit value \<open>a:b\<close> shifted right by \<open>n\<close> bytes,
  truncated to its low 128 bits.\<close>

definition mm_alignr_epi8 :: "m128i \<Rightarrow> m128i \<Rightarrow> nat \<Rightarrow> m128i" where
  "mm_alignr_epi8 a b n =
     ucast (drop_bit (8 * n) (push_bit 128 (ucast a) OR ucast b :: 256 word))"

text \<open>
  Modelled from the spec: the carry-less 64 by 64 to 128 bit multiplication behind
  \<^verbatim>\<open>_mm_clmulepi64_si128\<close>, a processor instruction that the header only calls.  Bit \<open>k\<close> of
  the result is the XOR over \<open>i + j = k\<close> of \<open>x[i] AND y[j]\<close>: for every set bit \<open>i\<close> of \<open>x\<close>,
  \<open>y\<close> shifted left by \<open>i\<close> is XORed into the accumulator.
\<close>

definition clmul64 :: "64 word \<Rightarrow> 64 word \<Rightarrow> 128 word" where
  "clmul64 x y =
     fold (\<lambda>i acc. if bit x i then acc XOR push_bit i (ucast y) else acc) [0..<64] 0"

text \<open>\<^verbatim>\<open>_mm_clmulepi64_si128(a, b, imm8)\<close>: bit 0 of the immediate selects the lane of \<open>a\<close>,
  bit 4 the lane of \<open>b\<close>.\<close>

definition mm_clmulepi64_si128 :: "m128i \<Rightarrow> m128i \<Rightarrow> nat \<Rightarrow> m128i" where
  "mm_clmulepi64_si128 a b imm =
     clmul64 (if odd imm then hi64 a else lo64 a) (if odd (imm div 16) then hi64 b else lo64 b)"

section \<open>The operations of \<^verbatim>\<open>gf2p127.h\<close>\<close>

definition gf2p127_eq :: "gf2p127_t \<Rightarrow> gf2p127_t \<Rightarrow> bool" where
  "gf2p127_eq a b =
     (let lo = (mm_extract_epi64 a 0 = mm_extract_epi64 b 0);
          hi = (mm_extract_epi64 a 1 = mm_extract_epi64 b 1)
      in lo \<and> hi)"

definition gf2p127_zero :: gf2p127_t where
  "gf2p127_zero = mm_setzero_si128"

definition gf2p127_from_int :: "32 word \<Rightarrow> gf2p127_t" where
  "gf2p127_from_int a = mm_cvtsi32_si128 a"

text \<open>\<^verbatim>\<open>!bit * 64\<close> is 0 for a true bit and 64 for a false one.\<close>

definition gf2p127_mul_bit :: "gf2p127_t \<Rightarrow> bool \<Rightarrow> gf2p127_t" where
  "gf2p127_mul_bit a b = mm_slli_epi64 a ((if b then 0 else 1) * 64)"

definition gf2p127_add :: "gf2p127_t \<Rightarrow> gf2p127_t \<Rightarrow> gf2p127_t" where
  "gf2p127_add a b = mm_xor_si128 a b"

definition gf2p127_mul_00 :: "gf2p127_t \<Rightarrow> gf2p127_t" where
  "gf2p127_mul_00 a = mm_setzero_si128"

definition gf2p127_mul_01 :: "gf2p127_t \<Rightarrow> gf2p127_t" where
  "gf2p127_mul_01 a = a"

definition gf2p127_mul_10 :: "gf2p127_t \<Rightarrow> gf2p127_t" where
  "gf2p127_mul_10 a =
     (let sl = mm_slli_epi64 a 1;
          sr = mm_srli_epi64 a 63;
          c = mm_or_si128 sl (mm_slli_si128 sr 8);
          over = mm_srli_epi64 sl 63;
          x127 = mm_slli_epi64 over 63;
          x127x63 = mm_shuffle_epi32 x127 (MM_SHUFFLE 3 2 3 2);
          one = mm_shuffle_epi32 over (MM_SHUFFLE 3 3 3 2)
      in mm_xor_si128 (mm_xor_si128 c x127x63) one)"

definition gf2p127_mul_11 :: "gf2p127_t \<Rightarrow> gf2p127_t" where
  "gf2p127_mul_11 a =
     (let mul01 = gf2p127_mul_01 a;
          mul10 = gf2p127_mul_10 a
      in mm_xor_si128 mul01 mul10)"

text \<open>The general multiplier: Karatsuba over three carry-less products, then the reduction
  modulo \<open>x^127 + x^63 + 1\<close>.  The source reuses \<^verbatim>\<open>tmp\<close>, \<^verbatim>\<open>lo\<close> and \<^verbatim>\<open>hi\<close>; each
  assignment is one binding here, in the source's order.\<close>

definition gf2p127_mul :: "gf2p127_t \<Rightarrow> gf2p127_t \<Rightarrow> gf2p127_t" where
  "gf2p127_mul a b =
     (let tmp = mm_xor_si128 (mm_unpacklo_epi64 a b) (mm_unpackhi_epi64 a b);
          tmp = mm_clmulepi64_si128 tmp tmp 0x10;
          lo = mm_clmulepi64_si128 a b 0x00;
          hi = mm_clmulepi64_si128 a b 0x11;
          tmp = mm_xor_si128 tmp (mm_xor_si128 lo hi);
          lo = mm_xor_si128 lo (mm_slli_si128 tmp 8);
          hi = mm_xor_si128 hi (mm_srli_si128 tmp 8);
          tmp = mm_alignr_epi8 hi lo 8;
          tmp = mm_xor_si128 tmp hi;
          hi = mm_slli_epi64 hi 1;
          lo = mm_xor_si128 lo hi;
          hi = mm_unpackhi_epi64 hi tmp;
          lo = mm_xor_si128 lo hi;
          tmp = mm_srli_epi64 tmp 63;
          lo = mm_xor_si128 lo tmp;
          hi = mm_unpacklo_epi64 tmp tmp;
          lo = mm_xor_si128 lo (mm_slli_epi64 hi 63)
      in lo)"

subsection \<open>Text output\<close>

text \<open>What \<^verbatim>\<open>sprintf\<close> writes for \<^verbatim>\<open>%i\<close> on a non-negative value: its decimal digits,
  most significant first.\<close>

definition digit_char :: "nat \<Rightarrow> char" where
  "digit_char d = ''0123456789abcdef'' ! d"

fun show_dec :: "nat \<Rightarrow> string" where
  "show_dec n = (if n < 10 then [digit_char n] else show_dec (n div 10) @ [digit_char (n mod 10)])"

declare show_dec.simps [simp del]

text \<open>The loop of \<^verbatim>\<open>gf2p127_show\<close>, \<^verbatim>\<open>for (k = 1; k < 128; k++)\<close>, on the state
  (\<open>k\<close>, \<open>a\<close>, text written so far).\<close>

function show_loop :: "nat \<Rightarrow> 128 word \<Rightarrow> string \<Rightarrow> string" where
  "show_loop k a str =
     (if k < 128
      then show_loop (Suc k) (drop_bit 1 a)
             (if a AND 1 \<noteq> 0 then str @ '' + 2^'' @ show_dec k else str)
      else str)"
  by pat_completeness auto
termination
  by (relation "measure (\<lambda>(k, a, str). 128 - k)") auto

declare show_loop.simps [simp del]

definition gf2p127_show :: "gf2p127_t \<Rightarrow> string" where
  "gf2p127_show m =
     (let a = m;
          str = (if a AND 1 \<noteq> 0 then ''1'' else ''0'');
          a = drop_bit 1 a
      in show_loop 1 a str)"

text \<open>What \<^verbatim>\<open>sprintf\<close> writes for \<^verbatim>\<open>%.16llx\<close>: the hexadecimal digits of the 64-bit value
  read as unsigned, in lower case, with zeros in front up to the precision of 16 digits.\<close>

fun hex_digits :: "nat \<Rightarrow> string" where
  "hex_digits n = (if n = 0 then [] else hex_digits (n div 16) @ [digit_char (n mod 16)])"

declare hex_digits.simps [simp del]

definition fmt_16llx :: "64 word \<Rightarrow> string" where
  "fmt_16llx w =
     (let ds = hex_digits (unat w) in replicate (16 - length ds) CHR ''0'' @ ds)"

definition gf2p127_hex :: "gf2p127_t \<Rightarrow> string" where
  "gf2p127_hex m = fmt_16llx (mm_extract_epi64 m 1) @ fmt_16llx (mm_extract_epi64 m 0)"

section \<open>The specification side\<close>

subsection \<open>Polynomials over GF(2) as natural numbers\<close>

text \<open>A natural number stands for the polynomial whose coefficient of \<open>x^k\<close> is its bit
  \<open>k\<close>.  Addition of polynomials is XOR; \<open>clprod\<close> is their product, by the schoolbook
  rule \<open>a * b = a\<^sub>0 * b + x * ((a div x) * b)\<close>.\<close>

fun clprod :: "nat \<Rightarrow> nat \<Rightarrow> nat" where
  "clprod a b =
     (if a = 0 then 0
      else (if odd a then b else 0) XOR 2 * clprod (a div 2) b)"

declare clprod.simps [simp del]

text \<open>The modulus \<open>f(x) = x^127 + x^63 + 1\<close>, and congruence modulo it: the two polynomials
  differ by a multiple of \<open>f\<close>.\<close>

definition fpoly :: nat where
  "fpoly = 2 ^ 127 + 2 ^ 63 + 1"

definition gf2_cong :: "nat \<Rightarrow> nat \<Rightarrow> bool" where
  "gf2_cong p r \<longleftrightarrow> (\<exists>q. p XOR r = clprod fpoly q)"

subsection \<open>Reading the hexadecimal text back\<close>

text \<open>
  Modelled from the spec: \<open>parse_hex\<close>, the inverse that the specification names and the header
  does not contain.  A text of exactly 32 hexadecimal digits is read back into two 64-bit words,
  the high one first; any other text is rejected.
\<close>

definition hex_val :: "char \<Rightarrow> nat option" where
  "hex_val c = map_of (zip ''0123456789abcdef'' [0..<16]) c"

fun parse_hex_nat :: "nat \<Rightarrow> string \<Rightarrow> nat option" where
  "parse_hex_nat acc [] = Some acc"
| "parse_hex_nat acc (c # cs) =
     (case hex_val c of None \<Rightarrow> None | Some v \<Rightarrow> parse_hex_nat (16 * acc + v) cs)"

definition parse_hex :: "string \<Rightarrow> gf2p127_t option" where
  "parse_hex s =
     (if length s \<noteq> 32 then None
      else case (parse_hex_nat 0 (take 16 s), parse_hex_nat 0 (drop 16 s)) of
             (Some h, Some l) \<Rightarrow> Some (set64 (word_of_nat h) (word_of_nat l))
           | _ \<Rightarrow> None)"

subsection \<open>The two stages of the multiplier, taken apart\<close>

definition karatsuba_mid :: "gf2p127_t \<Rightarrow> gf2p127_t \<Rightarrow> m128i" where
  "karatsuba_mid a b =
     clmul64 (lo64 a XOR hi64 a) (lo64 b XOR hi64 b)
       XOR (clmul64 (lo64 a) (lo64 b) XOR clmul64 (hi64 a) (hi64 b))"

definition karatsuba_lo :: "gf2p127_t \<Rightarrow> gf2p127_t \<Rightarrow> m128i" where
  "karatsuba_lo a b = clmul64 (lo64 a) (lo64 b) XOR push_bit 64 (karatsuba_mid a b)"

definition karatsuba_hi :: "gf2p127_t \<Rightarrow> gf2p127_t \<Rightarrow> m128i" where
  "karatsuba_hi a b = clmul64 (hi64 a) (hi64 b) XOR drop_bit 64 (karatsuba_mid a b)"

definition reduce127 :: "m128i \<Rightarrow> m128i \<Rightarrow> m128i" where
  "reduce127 lo hi =
     (let tmp = mm_alignr_epi8 hi lo 8;
          tmp = mm_xor_si128 tmp hi;
          hi = mm_slli_epi64 hi 1;
          lo = mm_xor_si128 lo hi;
          hi = mm_unpackhi_epi64 hi tmp;
          lo = mm_xor_si128 lo hi;
          tmp = mm_srli_epi64 tmp 63;
          lo = mm_xor_si128 lo tmp;
          hi = mm_unpacklo_epi64 tmp tmp;
          lo = mm_xor_si128 lo (mm_slli_epi64 hi 63)
      in lo)"

text \<open>The high word folded once into the low one with \<open>x^128 = x^64 + x\<close> and
  \<open>x^192 = x^128 + x^65\<close>, before the last carry out of bit 127 is folded.\<close>

definition fold_high :: "m128i \<Rightarrow> m128i \<Rightarrow> m128i" where
  "fold_high lo hi =
     lo XOR push_bit 64 hi XOR push_bit 64 (drop_bit 64 hi)
        XOR push_bit 1 (drop_bit 64 hi) XOR push_bit 1 hi"

section \<open>Lanes\<close>

lemma lo64_set64 [simp]: "lo64 (set64 h l) = l"
  unfolding lo64_def set64_def
  by (rule bit_word_eqI) (auto simp add: bit_simps)

lemma hi64_set64 [simp]: "hi64 (set64 h l) = h"
  unfolding hi64_def set64_def
  by (rule bit_word_eqI) (auto simp add: bit_simps dest: bit_imp_le_length)

lemma set64_lo_hi [simp]: "set64 (hi64 a) (lo64 a) = a"
  unfolding hi64_def lo64_def set64_def
  by (rule bit_word_eqI) (auto simp add: bit_simps)

lemma bit_set64:
  "bit (set64 h l) n \<longleftrightarrow> (if n < 64 then bit l n else bit h (n - 64))"
  unfolding set64_def
  by (auto simp add: bit_simps dest: bit_imp_le_length)

lemma bit_lo64: "bit (lo64 a) n \<longleftrightarrow> n < 64 \<and> bit a n"
  unfolding lo64_def by (auto simp add: bit_simps)

lemma bit_hi64: "bit (hi64 a) n \<longleftrightarrow> n < 64 \<and> bit a (64 + n)"
  unfolding hi64_def by (auto simp add: bit_simps)

text \<open>\<^verbatim>\<open>gf2p127_eq\<close> compares both lanes, so it is equality of the registers.\<close>

lemma gf2p127_eq_iff: "gf2p127_eq a b \<longleftrightarrow> a = b"
proof -
  have "lo64 a = lo64 b \<and> hi64 a = hi64 b \<longleftrightarrow> a = b"
    by (metis set64_lo_hi)
  then show ?thesis
    by (simp add: gf2p127_eq_def mm_extract_epi64_def)
qed

lemma set64_eq_iff [simp]: "set64 h l = set64 h' l' \<longleftrightarrow> h = h' \<and> l = l'"
  by (metis hi64_set64 lo64_set64)

lemma set64_xor: "set64 h l XOR set64 h' l' = set64 (h XOR h') (l XOR l')"
  by (rule bit_word_eqI) (simp add: bit_simps bit_set64)

lemma set64_or: "set64 h l OR set64 h' l' = set64 (h OR h') (l OR l')"
  by (rule bit_word_eqI) (simp add: bit_simps bit_set64)

lemma set64_0 [simp]: "set64 0 0 = 0"
  by (rule bit_word_eqI) (simp add: bit_set64)

lemma lo64_xor: "lo64 (a XOR b) = lo64 a XOR lo64 b"
  by (rule bit_word_eqI) (auto simp add: bit_simps bit_lo64)

lemma hi64_xor: "hi64 (a XOR b) = hi64 a XOR hi64 b"
  by (rule bit_word_eqI) (auto simp add: bit_simps bit_hi64)

lemma slli_si128_8: "mm_slli_si128 (set64 h l) 8 = set64 l 0"
  unfolding mm_slli_si128_def
  by (rule bit_word_eqI) (auto simp add: bit_simps bit_set64)

lemma srli_si128_8: "mm_srli_si128 (set64 h l) 8 = set64 0 h"
  unfolding mm_srli_si128_def
  by (rule bit_word_eqI) (auto simp add: bit_simps bit_set64 dest: bit_imp_le_length)

lemma alignr_8: "mm_alignr_epi8 (set64 h l) (set64 h' l') 8 = set64 l h'"
  unfolding mm_alignr_epi8_def
  by (rule bit_word_eqI) (auto simp add: bit_simps bit_set64 dest: bit_imp_le_length)

lemma shuffle_3232: "mm_shuffle_epi32 (set64 h l) (MM_SHUFFLE 3 2 3 2) = set64 h h"
  unfolding mm_shuffle_epi32_def MM_SHUFFLE_def set32_def epi32_def
  by (rule bit_word_eqI) (auto simp add: bit_simps bit_set64 dest: bit_imp_le_length)

lemma shuffle_3332:
  "mm_shuffle_epi32 (set64 h l) (MM_SHUFFLE 3 3 3 2) =
     set64 (push_bit 32 (drop_bit 32 h) OR drop_bit 32 h) h"
  unfolding mm_shuffle_epi32_def MM_SHUFFLE_def set32_def epi32_def
  by (rule bit_word_eqI) (auto simp add: bit_simps bit_set64 dest: bit_imp_le_length)

section \<open>Multiplication by \<open>x\<close>\<close>

lemmas bsimps = bit_simps bit_set64 bit_lo64 bit_hi64

lemma slli_epi64_1: "mm_slli_epi64 (set64 h l) 1 = set64 (push_bit 1 h) (push_bit 1 l)"
  by (simp add: mm_slli_epi64_def del: push_bit_Suc One_nat_def)

lemma slli_epi64_63: "mm_slli_epi64 (set64 h l) 63 = set64 (push_bit 63 h) (push_bit 63 l)"
  by (simp add: mm_slli_epi64_def)

lemma srli_epi64_63: "mm_srli_epi64 (set64 h l) 63 = set64 (drop_bit 63 h) (drop_bit 63 l)"
  by (simp add: mm_srli_epi64_def)

lemma over_eq: "drop_bit 63 (push_bit 1 h) = (of_bool (bit h 62) :: 64 word)"
  by (rule bit_word_eqI) (auto simp add: bit_simps simp del: push_bit_Suc dest: bit_imp_le_length)

lemma of_bool_hi32: "push_bit 32 (drop_bit 32 (of_bool b)) OR drop_bit 32 (of_bool b) = (0 :: 64 word)"
  by (rule bit_word_eqI) (auto simp add: bit_simps dest: bit_imp_le_length)

lemma mul_10_lanes:
  "gf2p127_mul_10 (set64 h l) =
     set64 ((push_bit 1 h OR drop_bit 63 l) XOR push_bit 63 (of_bool (bit h 62)))
           (push_bit 1 l XOR push_bit 63 (of_bool (bit h 62)) XOR of_bool (bit h 62))"
  by (simp only: gf2p127_mul_10_def Let_def slli_epi64_1 slli_epi64_63 srli_epi64_63
      mm_or_si128_def mm_xor_si128_def slli_si128_8 shuffle_3232 shuffle_3332 set64_or set64_xor
      over_eq of_bool_hi32 or.right_neutral xor.right_neutral xor.assoc)

lemma mul_10_bits:
  "gf2p127_mul_10 a =
     take_bit 127 (push_bit 1 a) XOR push_bit 63 (of_bool (bit a 126)) XOR of_bool (bit a 126)"
proof -
  have "gf2p127_mul_10 (set64 (hi64 a) (lo64 a)) =
     take_bit 127 (push_bit 1 a) XOR push_bit 63 (of_bool (bit a 126)) XOR of_bool (bit a 126)"
    unfolding mul_10_lanes
    apply (rule bit_word_eqI)
    subgoal for n
      apply (cases "n = 127")
       apply (simp add: bsimps del: push_bit_Suc)
      apply (auto simp add: bsimps simp del: push_bit_Suc dest: bit_imp_le_length)
      done
    done
  then show ?thesis by simp
qed

lemma mul_10_eq:
  "gf2p127_mul_10 a = take_bit 127 (push_bit 1 a) XOR (if bit a 126 then 2 ^ 63 XOR 1 else 0)"
  unfolding mul_10_bits by simp

section \<open>The algebra of carry-less products\<close>

lemma clprod_0_left [simp]: "clprod 0 b = 0"
  by (simp add: clprod.simps)

lemma clprod_rec: "clprod a b = (if odd a then b else 0) XOR 2 * clprod (a div 2) b"
  by (cases "a = 0") (simp_all add: clprod.simps [of a])

lemma clprod_0_right [simp]: "clprod a 0 = 0"
  by (induction a "0::nat" rule: clprod.induct) (simp add: clprod.simps)

lemma double_xor: "2 * (a XOR b) = 2 * a XOR 2 * (b::nat)"
  by (metis push_bit_xor push_bit_eq_mult mult.commute power_one_right)

lemma clprod_xor_right: "clprod a (b XOR c) = clprod a b XOR clprod a c"
proof (induction a b rule: clprod.induct)
  case (1 a b)
  show ?case
  proof (cases "a = 0")
    case True then show ?thesis by simp
  next
    case False
    with 1 have IH: "clprod (a div 2) (b XOR c) = clprod (a div 2) b XOR clprod (a div 2) c"
      by simp
    show ?thesis
      by (simp add: clprod_rec [of a] IH double_xor ac_simps)
  qed
qed

lemma clprod_double_right: "clprod a (2 * b) = 2 * clprod a b"
proof (induction a b rule: clprod.induct)
  case (1 a b)
  show ?case
  proof (cases "a = 0")
    case True then show ?thesis by simp
  next
    case False
    with 1 have IH: "clprod (a div 2) (2 * b) = 2 * clprod (a div 2) b"
      by simp
    show ?thesis
      by (simp add: clprod_rec [of a] IH double_xor)
  qed
qed

lemma clprod_double_left: "clprod (2 * a) b = 2 * clprod a b"
  by (simp add: clprod_rec [of "2 * a"])

lemma xor_cancel_left: "a XOR (a XOR b) = b" for a :: "'a::semiring_bit_operations"
  by (simp flip: xor.assoc)

lemma nat_xor_less: "a < 2 ^ n \<Longrightarrow> b < 2 ^ n \<Longrightarrow> a XOR b < (2::nat) ^ n"
  by (metis take_bit_nat_eq_self_iff take_bit_xor)

lemma nat_split_bit0: "a = (if odd a then 1 else 0) XOR 2 * (a div 2)" for a :: nat
proof (cases "odd a")
  case True
  have "Suc 0 XOR 2 * (a div 2) = Suc (2 * (a div 2))"
    by (simp add: xor.commute [of "Suc 0"] xor_Suc_0_eq del: odd_two_times_div_two_nat)
  then show ?thesis
    using True by (simp del: odd_two_times_div_two_nat)
      (metis odd_two_times_div_two_succ One_nat_def Suc_eq_plus1)
next
  case False
  then show ?thesis by simp
qed

lemma clprod_xor_left: "clprod (a XOR a') b = clprod a b XOR clprod a' b"
proof (induction a b arbitrary: a' rule: clprod.induct)
  case (1 a b)
  show ?case
  proof (cases "a = 0")
    case True then show ?thesis by simp
  next
    case False
    with 1 have IH: "clprod (a div 2 XOR a' div 2) b = clprod (a div 2) b XOR clprod (a' div 2) b"
      by simp
    have d: "(a XOR a') div 2 = a div 2 XOR a' div 2"
      by (metis drop_bit_xor drop_bit_eq_div power_one_right)
    have "clprod (a XOR a') b =
        (if odd a \<noteq> odd a' then b else 0) XOR 2 * (clprod (a div 2) b XOR clprod (a' div 2) b)"
      using clprod_rec [of "a XOR a'" b] by (simp add: d IH even_xor_iff)
    also have "\<dots> = ((if odd a then b else 0) XOR 2 * clprod (a div 2) b)
         XOR ((if odd a' then b else 0) XOR 2 * clprod (a' div 2) b)"
      by (simp add: double_xor ac_simps xor_cancel_left)
    also have "\<dots> = clprod a b XOR clprod a' b"
      using clprod_rec [of a b] clprod_rec [of a' b] by simp
    finally show ?thesis .
  qed
qed

lemma clprod_1_left [simp]: "clprod (Suc 0) b = b"
  by (simp add: clprod_rec [of "Suc 0"])

lemma clprod_1_right [simp]: "clprod a (Suc 0) = a"
proof (induction a "Suc 0" rule: clprod.induct)
  case (1 a)
  show ?case
  proof (cases "a = 0")
    case True then show ?thesis by simp
  next
    case False
    with 1 have IH: "clprod (a div 2) (Suc 0) = a div 2" by simp
    have "clprod a (Suc 0) = (if odd a then 1 else 0) XOR 2 * (a div 2)"
      using clprod_rec [of a "Suc 0"] by (simp add: IH)
    then show ?thesis
      using nat_split_bit0 [of a] by simp
  qed
qed

lemma clprod_double_left': "clprod (a * 2) b = 2 * clprod a b"
  using clprod_double_left [of a b] by (simp add: mult.commute)

lemma clprod_double_right': "clprod a (b * 2) = 2 * clprod a b"
  using clprod_double_right [of a b] by (simp add: mult.commute)

lemma clprod_push_bit_left: "clprod (push_bit n a) b = push_bit n (clprod a b)"
  by (induction n arbitrary: a) (simp_all add: clprod_double_left' mult.commute)

lemma clprod_push_bit_right: "clprod a (push_bit n b) = push_bit n (clprod a b)"
  by (induction n arbitrary: b) (simp_all add: clprod_double_right' mult.commute)

lemma clprod_pow2_left: "clprod (2 ^ n) b = push_bit n b"
  using clprod_push_bit_left [of n 1 b] by simp

lemma clprod_monomials: "clprod (2 ^ m) (2 ^ n) = 2 ^ (m + n)"
  by (simp add: clprod_pow2_left push_bit_eq_mult power_add mult.commute)

lemma clprod_commute: "clprod a b = clprod b a"
proof (induction a b rule: clprod.induct)
  case (1 a b)
  show ?case
  proof (cases "a = 0")
    case True then show ?thesis by simp
  next
    case False
    with 1 have IH: "clprod (a div 2) b = clprod b (a div 2)" by simp
    have "clprod b a = clprod b ((if odd a then 1 else 0) XOR 2 * (a div 2))"
      using nat_split_bit0 [of a] by simp
    also have "\<dots> = (if odd a then b else 0) XOR 2 * clprod b (a div 2)"
      by (simp add: clprod_xor_right clprod_double_right)
    finally show ?thesis
      by (simp add: clprod_rec [of a] IH)
  qed
qed

lemma clprod_less: "a < 2 ^ m \<Longrightarrow> b < 2 ^ n \<Longrightarrow> clprod a b < 2 ^ (m + n)"
proof (induction a b arbitrary: m rule: clprod.induct)
  case (1 a b)
  show ?case
  proof (cases "a = 0")
    case True then show ?thesis by simp
  next
    case False
    with 1 obtain m' where m: "m = Suc m'" by (cases m) auto
    with 1 have "a div 2 < 2 ^ m'" by auto
    with 1 False have IH: "clprod (a div 2) b < 2 ^ (m' + n)" by simp
    have b: "b < 2 ^ (m + n)"
      using 1(3) by (meson le_add2 less_le_trans one_le_numeral power_increasing)
    have "2 * clprod (a div 2) b < 2 ^ (m + n)" using IH m by simp
    then show ?thesis
      using b clprod_rec [of a b] by (simp add: nat_xor_less)
  qed
qed

section \<open>The multiplication primitive computes the carry-less product\<close>

lemma take_bit_Suc_xor:
  "take_bit (Suc n) a = take_bit n a XOR (if bit a n then 2 ^ n else 0)" for a :: nat
  by (rule bit_eqI) (auto simp add: bit_simps less_Suc_eq)

lemma clmul64_fold:
  "fold (\<lambda>i acc. if bit x i then acc XOR push_bit i (ucast y) else acc) [0..<n] (0 :: 128 word)
     = word_of_nat (clprod (take_bit n (unat x)) (unat y))"
proof (induction n)
  case 0
  show ?case by simp
next
  case (Suc n)
  have y: "(word_of_nat (push_bit n (unat y)) :: 128 word) = push_bit n (ucast y)"
    by (simp add: of_nat_push_bit)
  show ?case
    by (simp add: Suc take_bit_Suc_xor clprod_xor_left clprod_pow2_left of_nat_xor_eq y
        bit_unsigned_iff del: upt_Suc add: upt_Suc_append)
qed

lemma unat_clmul64: "unat (clmul64 x y) = clprod (unat x) (unat y)"
proof -
  have "unat x < 2 ^ 64" "unat y < 2 ^ 64"
    using unsigned_less [of x] unsigned_less [of y] by simp_all
  then have "clprod (unat x) (unat y) < 2 ^ (64 + 64)"
    by (rule clprod_less)
  moreover have "take_bit 64 (unat x) = unat x"
    using \<open>unat x < 2 ^ 64\<close> by (simp add: take_bit_nat_eq_self)
  ultimately show ?thesis
    by (simp add: clmul64_def clmul64_fold unat_of_nat)
qed

section \<open>The multiplier in two stages\<close>

lemma mul_stages: "gf2p127_mul a b = reduce127 (karatsuba_lo a b) (karatsuba_hi a b)"
  unfolding gf2p127_mul_def reduce127_def karatsuba_lo_def karatsuba_hi_def karatsuba_mid_def
    Let_def mm_clmulepi64_si128_def mm_unpacklo_epi64_def mm_unpackhi_epi64_def
    mm_xor_si128_def mm_slli_si128_def mm_srli_si128_def
  by (simp add: set64_xor del: push_bit_Suc)

lemma reduce127_lanes:
  "reduce127 (set64 l1 l0) (set64 h1 h0) =
     set64 (l1 XOR push_bit 1 h1 XOR h0 XOR h1 XOR drop_bit 63 (h0 XOR h1)
              XOR push_bit 63 (drop_bit 63 (l1 XOR h0)))
           (l0 XOR push_bit 1 h0 XOR push_bit 1 h1 XOR drop_bit 63 (l1 XOR h0)
              XOR push_bit 63 (drop_bit 63 (l1 XOR h0)))"
  by (simp only: reduce127_def Let_def alignr_8 mm_xor_si128_def set64_xor slli_epi64_1
      mm_unpackhi_epi64_def mm_unpacklo_epi64_def hi64_set64 lo64_set64 srli_epi64_63 slli_epi64_63
      xor.assoc)

lemma drop_bit_63: "drop_bit 63 w = (of_bool (bit w 63) :: 64 word)"
proof (rule bit_word_eqI)
  fix n
  show "bit (drop_bit 63 w) n \<longleftrightarrow> bit (of_bool (bit w 63) :: 64 word) n"
    by (cases "n = 0") (auto simp add: bit_simps dest: bit_imp_le_length)
qed

lemma push64_set64: "push_bit 64 (set64 h l) = set64 l 0"
  by (rule bit_word_eqI) (auto simp add: bsimps)

lemma drop64_set64: "drop_bit 64 (set64 h l) = set64 0 h"
  by (rule bit_word_eqI) (auto simp add: bsimps dest: bit_imp_le_length)

lemma push1_set64:
  "push_bit 1 (set64 h l) = set64 (push_bit 1 h XOR drop_bit 63 l) (push_bit 1 l)"
  apply (rule bit_word_eqI)
  subgoal for n
    apply (cases "n = 64")
     apply (simp add: bsimps del: push_bit_Suc)
    apply (auto simp add: bsimps simp del: push_bit_Suc dest: bit_imp_le_length)
    done
  done

lemma bit127_set64: "bit (set64 h l) 127 \<longleftrightarrow> bit h 63"
  by (simp add: bit_set64)

lemma bit126_set64: "bit (set64 h l) 126 \<longleftrightarrow> bit h 62"
  by (simp add: bit_set64)

lemma fold_high_lanes:
  "fold_high (set64 l1 l0) (set64 h1 h0) =
     set64 (l1 XOR h0 XOR h1 XOR drop_bit 63 h1 XOR push_bit 1 h1 XOR drop_bit 63 h0)
           (l0 XOR push_bit 1 h1 XOR push_bit 1 h0)"
  by (simp only: fold_high_def push64_set64 drop64_set64 push1_set64 set64_xor
      xor.assoc xor.right_neutral xor.left_neutral push_bit_of_0 drop_bit_of_0)

lemma fold_top_lanes:
  "push_bit 127 (of_bool t) XOR push_bit 63 (of_bool t) XOR of_bool t
     = set64 (push_bit 63 (of_bool t)) (push_bit 63 (of_bool t) XOR of_bool t)"
  by (rule bit_word_eqI) (auto simp add: bsimps)

lemma reduce127_eq:
  assumes "\<not> bit hi 126" "\<not> bit hi 127"
  shows "reduce127 lo hi =
     fold_high lo hi XOR push_bit 127 (of_bool (bit (fold_high lo hi) 127))
       XOR push_bit 63 (of_bool (bit (fold_high lo hi) 127))
       XOR of_bool (bit (fold_high lo hi) 127)"
proof -
  define l0 l1 h0 h1 where "l0 = lo64 lo" and "l1 = hi64 lo" and "h0 = lo64 hi" and "h1 = hi64 hi"
  have lo: "lo = set64 l1 l0" and hi: "hi = set64 h1 h0"
    by (simp_all add: l0_def l1_def h0_def h1_def)
  from assms have h1: "\<not> bit h1 62" "\<not> bit h1 63"
    by (simp_all add: hi bit_set64)
  define p1 where "p1 = l1 XOR h0 XOR h1 XOR drop_bit 63 h1 XOR push_bit 1 h1 XOR drop_bit 63 h0"
  have t: "bit p1 63 \<longleftrightarrow> bit (l1 XOR h0) 63"
    using h1 unfolding p1_def
    by (auto simp add: bit_simps simp del: push_bit_Suc dest: bit_imp_le_length)
  have d: "drop_bit 63 (h0 XOR h1) = drop_bit 63 h1 XOR drop_bit 63 h0"
    by (simp add: drop_bit_xor xor.commute)
  have "reduce127 lo hi =
      set64 (p1 XOR push_bit 63 (of_bool (bit p1 63)))
            (l0 XOR push_bit 1 h1 XOR push_bit 1 h0 XOR push_bit 63 (of_bool (bit p1 63))
               XOR of_bool (bit p1 63))"
    unfolding lo hi reduce127_lanes t drop_bit_63 [of "l1 XOR h0"] d
    by (simp add: p1_def ac_simps del: push_bit_Suc)
  moreover have "fold_high lo hi XOR push_bit 127 (of_bool (bit (fold_high lo hi) 127))
       XOR push_bit 63 (of_bool (bit (fold_high lo hi) 127))
       XOR of_bool (bit (fold_high lo hi) 127) =
      set64 (p1 XOR push_bit 63 (of_bool (bit p1 63)))
            (l0 XOR push_bit 1 h1 XOR push_bit 1 h0 XOR push_bit 63 (of_bool (bit p1 63))
               XOR of_bool (bit p1 63))"
    unfolding lo hi fold_high_lanes xor.assoc fold_top_lanes bit127_set64 set64_xor
    by (simp add: p1_def ac_simps del: push_bit_Suc)
  ultimately show ?thesis by simp
qed

section \<open>Congruence modulo the field polynomial\<close>

lemma fpoly_xor: "fpoly = 2 ^ 127 XOR 2 ^ 63 XOR Suc 0"
  unfolding fpoly_def by simp

lemma clprod_fpoly: "clprod fpoly y = push_bit 127 y XOR push_bit 63 y XOR y"
  unfolding fpoly_xor by (simp only: clprod_xor_left clprod_pow2_left clprod_1_left)

lemma nat_not_bit_less: "a < 2 ^ n \<Longrightarrow> \<not> bit a n" for a :: nat
  by (metis bit_take_bit_iff less_irrefl take_bit_nat_eq_self)

lemma nat_bit_ge: "bit a n \<Longrightarrow> 2 ^ n \<le> a" for a :: nat
  using nat_not_bit_less [of a n] by (meson not_less)

lemma fpoly_less: "fpoly < 2 ^ 128"
  by (simp add: fpoly_def)

lemma bit_fpoly_127: "bit fpoly 127"
  unfolding fpoly_xor by (simp add: bit_simps)

lemma fpoly_degree:
  "q \<noteq> 0 \<Longrightarrow> \<exists>d. bit (clprod q fpoly) (127 + d) \<and> clprod q fpoly < 2 ^ (128 + d)"
proof (induction q fpoly rule: clprod.induct)
  case (1 q)
  show ?case
  proof (cases "q div 2 = 0")
    case True
    with 1(2) have "q = 1" by presburger
    then show ?thesis
      using bit_fpoly_127 fpoly_less by (intro exI [of _ 0]) simp
  next
    case False
    with 1 obtain d where d: "bit (clprod (q div 2) fpoly) (127 + d)"
      "clprod (q div 2) fpoly < 2 ^ (128 + d)"
      by blast
    let ?u = "if odd q then fpoly else 0"
    have "?u \<le> fpoly" by simp
    then have u128: "?u < 2 ^ 128"
      using fpoly_less by (rule le_less_trans)
    have "(2::nat) ^ 128 \<le> 2 ^ (128 + Suc d)"
      by (rule power_increasing) simp_all
    with u128 have u: "?u < 2 ^ (128 + Suc d)"
      by (rule less_le_trans)
    have "(2::nat) ^ 128 \<le> 2 ^ (127 + Suc d)"
      by (rule power_increasing) simp_all
    with u128 have "?u < 2 ^ (127 + Suc d)"
      by (rule less_le_trans)
    then have nu: "\<not> bit ?u (127 + Suc d)"
      by (rule nat_not_bit_less)
    have b2: "bit (2 * clprod (q div 2) fpoly) (127 + Suc d)"
      using d(1) by (simp only: add_Suc_right bit_double_Suc_iff) simp
    have "2 * clprod (q div 2) fpoly < 2 * 2 ^ (128 + d)"
      using d(2) by simp
    then have l2: "2 * clprod (q div 2) fpoly < 2 ^ (128 + Suc d)"
      by (simp only: add_Suc_right power_Suc)
    have eq: "clprod q fpoly = ?u XOR 2 * clprod (q div 2) fpoly"
      by (rule clprod_rec)
    have "bit (clprod q fpoly) (127 + Suc d)"
      unfolding eq bit_xor_iff using nu b2 by blast
    moreover have "clprod q fpoly < 2 ^ (128 + Suc d)"
      unfolding eq using u l2 by (rule nat_xor_less)
    ultimately show ?thesis by blast
  qed
qed

lemma clprod_fpoly_small: "clprod fpoly q < 2 ^ 127 \<Longrightarrow> q = 0"
proof (rule ccontr)
  assume small: "clprod fpoly q < 2 ^ 127" and "q \<noteq> 0"
  then obtain d where "bit (clprod q fpoly) (127 + d)"
    using fpoly_degree by blast
  then have "2 ^ (127 + d) \<le> clprod fpoly q"
    by (simp add: nat_bit_ge clprod_commute)
  moreover have "(2::nat) ^ 127 \<le> 2 ^ (127 + d)"
    by (rule power_increasing) simp_all
  ultimately show False using small by linarith
qed

lemma gf2_cong_refl: "gf2_cong p p"
  unfolding gf2_cong_def by (rule exI [of _ 0]) simp

lemma gf2_cong_sym: "gf2_cong p r \<Longrightarrow> gf2_cong r p"
  unfolding gf2_cong_def by (simp add: xor.commute)

lemma gf2_cong_xor: "gf2_cong p r \<Longrightarrow> gf2_cong p' r' \<Longrightarrow> gf2_cong (p XOR p') (r XOR r')"
  unfolding gf2_cong_def
proof (elim exE)
  fix q q'
  assume "p XOR r = clprod fpoly q" "p' XOR r' = clprod fpoly q'"
  then have "clprod fpoly (q XOR q') = (p XOR r) XOR (p' XOR r')"
    by (simp add: clprod_xor_right)
  also have "\<dots> = (p XOR p') XOR (r XOR r')"
    by (simp add: ac_simps)
  finally show "\<exists>q. (p XOR p') XOR (r XOR r') = clprod fpoly q"
    by (intro exI [of _ "q XOR q'"]) simp
qed

lemma gf2_cong_trans: "gf2_cong p r \<Longrightarrow> gf2_cong r s \<Longrightarrow> gf2_cong p s"
  unfolding gf2_cong_def
proof (elim exE)
  fix q q'
  assume "p XOR r = clprod fpoly q" "r XOR s = clprod fpoly q'"
  then have "clprod fpoly (q XOR q') = (p XOR r) XOR (r XOR s)"
    by (simp add: clprod_xor_right)
  also have "\<dots> = p XOR s"
    by (simp add: xor.assoc xor_cancel_left)
  finally show "\<exists>q. p XOR s = clprod fpoly q"
    by (intro exI [of _ "q XOR q'"]) simp
qed

lemma gf2_cong_unique:
  assumes "gf2_cong p r" "gf2_cong p r'" "r < 2 ^ 127" "r' < 2 ^ 127"
  shows "r = r'"
proof -
  have "gf2_cong r r'"
    using assms(1,2) by (blast intro: gf2_cong_sym gf2_cong_trans)
  then obtain q where q: "r XOR r' = clprod fpoly q"
    unfolding gf2_cong_def by blast
  have "r XOR r' < 2 ^ 127"
    using assms(3,4) by (rule nat_xor_less)
  then have "q = 0"
    using q clprod_fpoly_small by simp
  then have "r XOR r' = 0" using q by simp
  then show ?thesis by (metis xor.right_neutral xor_cancel_left)
qed

section \<open>The stages on polynomials\<close>

lemma unat_lanes: "unat a = unat (lo64 a) XOR push_bit 64 (unat (hi64 a))" for a :: m128i
  by (rule bit_eqI) (auto simp add: bit_simps bit_unsigned_iff bit_lo64 bit_hi64 dest: bit_imp_le_length)

lemma nat_split_at:
  "take_bit (m + n) (push_bit m x) XOR push_bit (m + n) (drop_bit n x) = push_bit m x" for x :: nat
  by (rule bit_eqI) (auto simp add: bit_simps)

lemma unat_karatsuba_mid:
  "unat (karatsuba_mid a b) =
     clprod (unat (lo64 a)) (unat (hi64 b)) XOR clprod (unat (hi64 a)) (unat (lo64 b))"
  unfolding karatsuba_mid_def
  by (simp add: unsigned_xor_eq unat_clmul64 clprod_xor_left clprod_xor_right ac_simps
      xor_cancel_left)

lemma karatsuba_nat:
  "unat (karatsuba_lo a b) XOR push_bit 128 (unat (karatsuba_hi a b)) = clprod (unat a) (unat b)"
proof -
  define L H M where "L = clprod (unat (lo64 a)) (unat (lo64 b))"
    and "H = clprod (unat (hi64 a)) (unat (hi64 b))"
    and "M = unat (karatsuba_mid a b)"
  have lo: "unat (karatsuba_lo a b) = L XOR take_bit 128 (push_bit 64 M)"
    unfolding karatsuba_lo_def L_def M_def
    by (simp add: unsigned_xor_eq unat_clmul64 unsigned_push_bit_eq)
  have hi: "unat (karatsuba_hi a b) = H XOR drop_bit 64 M"
    unfolding karatsuba_hi_def H_def M_def
    by (simp add: unsigned_xor_eq unat_clmul64 unat_drop_bit_eq)
  have split: "take_bit 128 (push_bit 64 M) XOR push_bit 128 (drop_bit 64 M) = push_bit 64 M"
    using nat_split_at [of 64 64 M] by simp
  have "clprod (unat a) (unat b) = L XOR push_bit 64 M XOR push_bit 128 H"
    unfolding unat_lanes [of a] unat_lanes [of b] L_def H_def M_def unat_karatsuba_mid
    by (simp add: clprod_xor_left clprod_xor_right clprod_push_bit_left clprod_push_bit_right
        push_bit_xor ac_simps)
  also have "\<dots> = L XOR (take_bit 128 (push_bit 64 M) XOR push_bit 128 (drop_bit 64 M))
      XOR push_bit 128 H"
    unfolding split ..
  also have "\<dots> = unat (karatsuba_lo a b) XOR push_bit 128 (unat (karatsuba_hi a b))"
    unfolding lo hi by (simp add: push_bit_xor ac_simps)
  finally show ?thesis by simp
qed

lemma word128_not_bit: "unat w < 2 ^ n \<Longrightarrow> n \<le> k \<Longrightarrow> \<not> bit w k" for w :: m128i
proof -
  assume "unat w < 2 ^ n" "n \<le> k"
  then have "unat w < 2 ^ k"
    by (meson less_le_trans one_le_numeral power_increasing)
  then have "\<not> bit (unat w) k" by (rule nat_not_bit_less)
  then show ?thesis by (auto simp add: bit_unsigned_iff dest: bit_imp_le_length)
qed

lemma unat_hi64_less: "\<not> bit a 127 \<Longrightarrow> unat (hi64 a) < 2 ^ 63"
proof -
  assume "\<not> bit a 127"
  then have "take_bit 63 (hi64 a) = hi64 a"
    apply (intro bit_word_eqI)
    subgoal for n
      by (cases "n = 63") (auto simp add: bit_simps bit_hi64)
    done
  then have "unat (hi64 a) = take_bit 63 (unat (hi64 a))"
    by (metis unsigned_take_bit_eq)
  then show ?thesis
    by (metis take_bit_nat_less_exp)
qed

lemma karatsuba_hi_small:
  assumes "\<not> bit a 127" "\<not> bit b 127"
  shows "unat (karatsuba_hi a b) < 2 ^ 126"
proof -
  have "clprod (unat (hi64 a)) (unat (hi64 b)) < 2 ^ (63 + 63)"
    using assms by (intro clprod_less unat_hi64_less)
  then have H: "clprod (unat (hi64 a)) (unat (hi64 b)) < 2 ^ 126"
    by simp
  have M: "drop_bit 64 (unat (karatsuba_mid a b)) < 2 ^ 126"
  proof -
    have "unat (karatsuba_mid a b) < 2 ^ 128"
      using unsigned_less [of "karatsuba_mid a b"] by simp
    then have "drop_bit 64 (unat (karatsuba_mid a b)) < 2 ^ 64"
      by (simp add: drop_bit_eq_div less_mult_imp_div_less)
    then show ?thesis by simp
  qed
  have "unat (karatsuba_hi a b) =
      clprod (unat (hi64 a)) (unat (hi64 b)) XOR drop_bit 64 (unat (karatsuba_mid a b))"
    unfolding karatsuba_hi_def
    by (simp add: unsigned_xor_eq unat_clmul64 unat_drop_bit_eq)
  also have "\<dots> < 2 ^ 126"
    using H M by (rule nat_xor_less)
  finally show ?thesis .
qed

lemma word128_less: "\<not> bit w 127 \<Longrightarrow> unat w < 2 ^ 127" for w :: m128i
proof -
  assume "\<not> bit w 127"
  then have "take_bit 127 w = w"
    apply (intro bit_word_eqI)
    subgoal for n
      by (cases "n = 127") (auto simp add: bit_simps)
    done
  then have "unat w = take_bit 127 (unat w)"
    by (metis unsigned_take_bit_eq)
  then show ?thesis
    by (metis take_bit_nat_less_exp)
qed

lemma nat_push_bit_less: "x < 2 ^ k \<Longrightarrow> push_bit m x < 2 ^ (m + k)" for x :: nat
  by (simp add: push_bit_eq_mult power_add)

lemma unat_fold_top:
  "unat (push_bit 127 (of_bool t) XOR push_bit 63 (of_bool t) XOR of_bool t :: m128i)
     = clprod fpoly (of_bool t)"
  by (cases t) (simp_all add: fpoly_def)

lemma reduce127_nat:
  assumes "unat hi < 2 ^ 126"
  shows "gf2_cong (unat lo XOR push_bit 128 (unat hi)) (unat (reduce127 lo hi))"
    and "\<not> bit (reduce127 lo hi) 127"
proof -
  define t where "t = bit (fold_high lo hi) 127"
  have nb: "\<not> bit hi 126" "\<not> bit hi 127"
    using word128_not_bit [OF assms, of 126] word128_not_bit [OF assms, of 127] by simp_all
  have R: "reduce127 lo hi =
      fold_high lo hi XOR (push_bit 127 (of_bool t) XOR push_bit 63 (of_bool t) XOR of_bool t)"
    using reduce127_eq [OF nb, of lo] by (simp add: t_def xor.assoc)
  show "\<not> bit (reduce127 lo hi) 127"
    unfolding R by (simp add: bit_simps t_def)
  define Hi Lo Y X1 Y1 where "Hi = unat hi" and "Lo = unat lo" and "Y = drop_bit 64 Hi"
    and "X1 = push_bit 1 Hi" and "Y1 = push_bit 1 Y"
  have Hi: "Hi < 2 ^ 126" using assms by (simp add: Hi_def)
  have "Y < 2 ^ 62"
    using Hi unfolding Y_def by (simp add: drop_bit_eq_div less_mult_imp_div_less)
  then have Y: "push_bit 64 Y < 2 ^ 128" "Y1 < 2 ^ 128"
    unfolding Y1_def using nat_push_bit_less [of Y 62 64] nat_push_bit_less [of Y 62 1]
    by (auto intro: less_trans)
  have X: "X1 < 2 ^ 128"
    unfolding X1_def using nat_push_bit_less [of Hi 126 1] Hi by (auto intro: less_trans)
  have split: "take_bit 128 (push_bit 64 Hi) XOR push_bit 128 Y = push_bit 64 Hi"
    using nat_split_at [of 64 64 Hi] by (simp add: Y_def)
  have raw: "unat (fold_high lo hi) =
      unat lo XOR take_bit 128 (push_bit 64 (unat hi))
        XOR take_bit 128 (push_bit 64 (drop_bit 64 (unat hi)))
        XOR take_bit 128 (push_bit 1 (drop_bit 64 (unat hi)))
        XOR take_bit 128 (push_bit 1 (unat hi))"
    by (simp add: fold_high_def unsigned_xor_eq unsigned_push_bit_eq unat_drop_bit_eq
        del: push_bit_Suc One_nat_def)
  have tk: "take_bit 128 (push_bit 64 Y) = push_bit 64 Y" "take_bit 128 Y1 = Y1"
    "take_bit 128 X1 = X1"
    using X Y by (simp_all only: take_bit_nat_eq_self)
  have P: "unat (fold_high lo hi) =
      Lo XOR take_bit 128 (push_bit 64 Hi) XOR push_bit 64 Y XOR Y1 XOR X1"
    unfolding raw Hi_def [symmetric] Lo_def [symmetric] Y_def [symmetric]
      X1_def [symmetric] Y1_def [symmetric] tk ..
  have FX: "clprod fpoly X1 = push_bit 128 Hi XOR push_bit 64 Hi XOR X1"
    unfolding clprod_fpoly X1_def
    by (simp add: push_bit_push_bit del: push_bit_Suc One_nat_def)
  have FY: "clprod fpoly Y1 = push_bit 128 Y XOR push_bit 64 Y XOR Y1"
    unfolding clprod_fpoly Y1_def
    by (simp add: push_bit_push_bit del: push_bit_Suc One_nat_def)
  have "(Lo XOR push_bit 128 Hi) XOR unat (reduce127 lo hi) =
      (Lo XOR push_bit 128 Hi) XOR
      (Lo XOR take_bit 128 (push_bit 64 Hi) XOR push_bit 64 Y XOR Y1 XOR X1) XOR
      clprod fpoly (of_bool t)"
    unfolding R unsigned_xor_eq [of "fold_high lo hi"] unat_fold_top P
    by (simp add: xor.assoc)
  also have "\<dots> = (push_bit 128 Hi XOR (take_bit 128 (push_bit 64 Hi) XOR push_bit 128 Y) XOR X1)
      XOR (push_bit 128 Y XOR push_bit 64 Y XOR Y1) XOR clprod fpoly (of_bool t)"
    by (simp add: ac_simps xor_cancel_left)
  also have "\<dots> = clprod fpoly (X1 XOR Y1 XOR of_bool t)"
    unfolding split by (simp add: clprod_xor_right FX FY xor.assoc)
  finally show "gf2_cong (unat lo XOR push_bit 128 (unat hi)) (unat (reduce127 lo hi))"
    unfolding gf2_cong_def Lo_def Hi_def by blast
qed

section \<open>The product is the canonical representative\<close>

lemma mul_cong:
  assumes "\<not> bit a 127" "\<not> bit b 127"
  shows "gf2_cong (clprod (unat a) (unat b)) (unat (gf2p127_mul a b))"
  using reduce127_nat(1) [OF karatsuba_hi_small [OF assms], of "karatsuba_lo a b"]
  by (simp add: karatsuba_nat mul_stages)

lemma mul_bit127:
  assumes "\<not> bit a 127" "\<not> bit b 127"
  shows "\<not> bit (gf2p127_mul a b) 127"
  using reduce127_nat(2) [OF karatsuba_hi_small [OF assms], of "karatsuba_lo a b"]
  by (simp add: mul_stages)

lemma mul_char:
  assumes "\<not> bit a 127" "\<not> bit b 127"
    and "gf2_cong (clprod (unat a) (unat b)) r" "r < 2 ^ 127"
  shows "unat (gf2p127_mul a b) = r"
  using mul_cong [OF assms(1,2)] assms(3) word128_less [OF mul_bit127 [OF assms(1,2)]] assms(4)
  by (rule gf2_cong_unique)

lemma mul_charI:
  assumes "\<not> bit a 127" "\<not> bit b 127"
    and "gf2_cong (clprod (unat a) (unat b)) (unat c)" "\<not> bit c 127"
  shows "gf2p127_mul a b = c"
  using mul_char [OF assms(1,2,3) word128_less [OF assms(4)]]
  by (simp add: word_unat_eq_iff)

section \<open>The general multiplier\<close>

text \<open>
  Claim C1.  For all elements \<open>a\<close> and \<open>b\<close> with bit 127 clear, \<open>gf2p127_mul a b\<close>, read as a
  polynomial, lies in \<open>[0, 2^127)\<close>, is congruent modulo \<open>f(x) = x^127 + x^63 + 1\<close> to the
  carry-less product of \<open>a\<close> and \<open>b\<close>, and is the only number below \<open>2^127\<close> that is.
\<close>

theorem gf2p127_mul_correct:
  assumes "\<not> bit a 127" "\<not> bit b 127"
  shows "unat (gf2p127_mul a b) < 2 ^ 127
    \<and> gf2_cong (clprod (unat a) (unat b)) (unat (gf2p127_mul a b))
    \<and> (\<forall>r. r < 2 ^ 127 \<and> gf2_cong (clprod (unat a) (unat b)) r \<longrightarrow> r = unat (gf2p127_mul a b))"
proof (intro conjI allI impI)
  show "unat (gf2p127_mul a b) < 2 ^ 127"
    using assms by (intro word128_less mul_bit127)
  show "gf2_cong (clprod (unat a) (unat b)) (unat (gf2p127_mul a b))"
    using assms by (rule mul_cong)
  fix r
  assume "r < 2 ^ 127 \<and> gf2_cong (clprod (unat a) (unat b)) r"
  then show "r = unat (gf2p127_mul a b)"
    using mul_char [OF assms, of r] by simp
qed

text \<open>The theorem at \<open>a = x^126\<close> and \<open>b = x\<close>: the product \<open>x^127\<close> is represented by
  \<open>x^63 + 1\<close>.\<close>

theorem gf2p127_mul_correct_witness:
  "\<not> bit (2 ^ 126 :: gf2p127_t) 127 \<and> \<not> bit (2 :: gf2p127_t) 127
   \<and> unat (gf2p127_mul (2 ^ 126) 2) < 2 ^ 127
   \<and> gf2_cong (clprod (unat (2 ^ 126 :: gf2p127_t)) (unat (2 :: gf2p127_t)))
         (unat (gf2p127_mul (2 ^ 126) 2))
   \<and> unat (gf2p127_mul (2 ^ 126) 2) = 2 ^ 63 + 1"
proof -
  have a: "\<not> bit (2 ^ 126 :: gf2p127_t) 127"
    by (simp add: bit_simps)
  have b: "\<not> bit (2 :: gf2p127_t) 127"
    by (simp add: bit_simps)
  have "clprod (unat (2 ^ 126 :: gf2p127_t)) (unat (2 :: gf2p127_t)) = 2 ^ 127"
    using clprod_pow2_left [of 126 2] by simp
  moreover have "(2::nat) ^ 127 XOR (2 ^ 63 + 1) = clprod fpoly 1"
    by (simp add: fpoly_def)
  ultimately have c: "gf2_cong (clprod (unat (2 ^ 126 :: gf2p127_t)) (unat (2 :: gf2p127_t)))
      (2 ^ 63 + 1)"
    unfolding gf2_cong_def by (intro exI [of _ 1]) simp
  have d: "(2::nat) ^ 63 + 1 < 2 ^ 127"
    by simp
  show ?thesis
    using a b c d gf2p127_mul_correct [OF a b] by metis
qed

section \<open>The constant multipliers\<close>

lemma mul_10_bit127: "\<not> bit (gf2p127_mul_10 a) 127"
  unfolding mul_10_bits by (simp add: bit_simps)

lemma push1_lanes:
  "lo64 (push_bit 1 a) = push_bit 1 (lo64 a)"
  "hi64 (push_bit 1 a) = push_bit 1 (hi64 a) OR drop_bit 63 (lo64 a)"
proof -
  have or_xor: "push_bit 1 h XOR drop_bit 63 l = push_bit 1 h OR drop_bit 63 l" for h l :: "64 word"
    apply (rule bit_word_eqI)
    subgoal for n
      by (cases "n = 0") (auto simp add: bit_simps simp del: push_bit_Suc dest: bit_imp_le_length)
    done
  have "push_bit 1 (set64 (hi64 a) (lo64 a)) =
      set64 (push_bit 1 (hi64 a) OR drop_bit 63 (lo64 a)) (push_bit 1 (lo64 a))"
    unfolding push1_set64 or_xor ..
  then have e: "push_bit 1 a = set64 (push_bit 1 (hi64 a) OR drop_bit 63 (lo64 a)) (push_bit 1 (lo64 a))"
    by (simp only: set64_lo_hi)
  show "lo64 (push_bit 1 a) = push_bit 1 (lo64 a)"
    unfolding e by (rule lo64_set64)
  show "hi64 (push_bit 1 a) = push_bit 1 (hi64 a) OR drop_bit 63 (lo64 a)"
    unfolding e by (rule hi64_set64)
qed

lemma mul_10_cases:
  "gf2p127_mul_10 a =
     (if bit a 126 then unset_bit 127 (push_bit 1 a XOR 2 ^ 63 XOR 1)
      else take_bit 127 (push_bit 1 a))"
proof (cases "bit a 126")
  case True
  have "take_bit 127 (push_bit 1 a) XOR push_bit 63 1 XOR 1 =
      unset_bit 127 (push_bit 1 a XOR push_bit 63 1 XOR 1)"
    apply (rule bit_word_eqI)
    subgoal for n
      by (cases "n = 127") (auto simp add: bit_simps simp del: push_bit_Suc push_bit_of_1)
    done
  then show ?thesis
    using True unfolding mul_10_bits by simp
next
  case False
  then show ?thesis
    unfolding mul_10_bits by simp
qed

lemma take_bit_127_push: "\<not> bit a 127 \<Longrightarrow> \<not> bit a 126 \<Longrightarrow> take_bit 127 (push_bit 1 a) = push_bit 1 a"
  for a :: m128i
  apply (rule bit_word_eqI)
  subgoal for n
    by (cases "n = 127") (auto simp add: bit_simps simp del: push_bit_Suc)
  done

text \<open>
  Claim C2.  For every element \<open>a\<close> with bit 127 clear, \<open>gf2p127_mul_10 a\<close> is \<open>a\<close> shifted up by
  one degree over the whole register (the low lane shifted, and the high lane shifted with the top
  bit of the low lane as its bottom bit), and, exactly when bit 126 of \<open>a\<close> was set, with 1
  XORed into bits 0 and 63 and bit 127 cleared.
\<close>

theorem gf2p127_mul_10_spec:
  assumes "\<not> bit a 127"
  shows "gf2p127_mul_10 a =
           (if bit a 126 then unset_bit 127 (push_bit 1 a XOR 2 ^ 63 XOR 1) else push_bit 1 a)
         \<and> lo64 (push_bit 1 a) = push_bit 1 (lo64 a)
         \<and> hi64 (push_bit 1 a) = push_bit 1 (hi64 a) OR drop_bit 63 (lo64 a)"
  using assms by (simp add: mul_10_cases push1_lanes take_bit_127_push del: push_bit_Suc One_nat_def)

text \<open>The theorem at the element with only bit 126 set: the result has bits 0 and 63 set and
  is not the plain left shift.\<close>

theorem gf2p127_mul_10_spec_witness:
  "\<not> bit (2 ^ 126 :: gf2p127_t) 127
   \<and> gf2p127_mul_10 (2 ^ 126) = 2 ^ 63 + 1
   \<and> gf2p127_mul_10 (2 ^ 126) \<noteq> push_bit 1 (2 ^ 126)"
proof -
  have a: "\<not> bit (2 ^ 126 :: gf2p127_t) 127"
    by (simp add: bit_simps)
  have b: "bit (2 ^ 126 :: gf2p127_t) 126"
    by (simp add: bit_simps)
  have c: "unset_bit 127 (push_bit 1 (2 ^ 126) XOR 2 ^ 63 XOR 1) = (2 ^ 63 + 1 :: gf2p127_t)"
    by simp
  have d: "push_bit 1 (2 ^ 126) \<noteq> (2 ^ 63 + 1 :: gf2p127_t)"
    by simp
  show ?thesis
    using a gf2p127_mul_10_spec [OF a] b c d by simp
qed

lemma mul_10_ignores_bit127: "gf2p127_mul_10 (take_bit 127 a) = gf2p127_mul_10 a"
  unfolding mul_10_bits
  apply (rule bit_word_eqI)
  subgoal for n
    by (cases "n = 127") (auto simp add: bit_simps simp del: push_bit_Suc)
  done

text \<open>
  Claim C10.  For every 128-bit input, canonical or not, bit 127 of \<open>gf2p127_mul_10 a\<close> is 0, and
  bit 127 of the input has no influence on the result.
\<close>

theorem gf2p127_mul_10_clears_bit127:
  "\<not> bit (gf2p127_mul_10 a) 127 \<and> gf2p127_mul_10 a = gf2p127_mul_10 (take_bit 127 a)"
  by (simp only: mul_10_bit127 mul_10_ignores_bit127) simp

text \<open>
  Claim C5.  For every element \<open>a\<close>, \<open>gf2p127_mul_bit a False\<close> is zero and
  \<open>gf2p127_mul_bit a True\<close> is \<open>a\<close>: the bit selects between \<open>gf2p127_mul_00\<close> and
  \<open>gf2p127_mul_01\<close>.
\<close>

theorem gf2p127_mul_bit_spec:
  "gf2p127_mul_bit a False = gf2p127_zero \<and> gf2p127_mul_bit a True = a
   \<and> gf2p127_mul_bit a b = (if b then gf2p127_mul_01 a else gf2p127_mul_00 a)"
  by (simp add: gf2p127_mul_bit_def gf2p127_zero_def gf2p127_mul_01_def gf2p127_mul_00_def
      mm_slli_epi64_def mm_setzero_si128_def)

section \<open>The representation invariant and the algebraic laws\<close>

lemma add_bit127: "\<not> bit a 127 \<Longrightarrow> \<not> bit b 127 \<Longrightarrow> \<not> bit (gf2p127_add a b) 127"
  by (simp add: gf2p127_add_def mm_xor_si128_def bit_simps)

lemma mul_11_bit127: "\<not> bit a 127 \<Longrightarrow> \<not> bit (gf2p127_mul_11 a) 127"
  using mul_10_bit127 [of a]
  by (simp add: gf2p127_mul_11_def gf2p127_mul_01_def mm_xor_si128_def bit_simps)

lemma from_int_bit: "bit (gf2p127_from_int v) n \<longleftrightarrow> n < 32 \<and> bit v n"
  by (auto simp add: gf2p127_from_int_def mm_cvtsi32_si128_def bit_simps dest: bit_imp_le_length)

lemma from_int_bit127: "\<not> bit (gf2p127_from_int v) 127"
  by (simp add: from_int_bit)

lemma mul_bit_bit127: "\<not> bit a 127 \<Longrightarrow> \<not> bit (gf2p127_mul_bit a b) 127"
  by (simp add: gf2p127_mul_bit_def mm_slli_epi64_def)

text \<open>
  Claim C3.  For all elements \<open>a\<close> and \<open>b\<close> with bit 127 clear, bit 127 of \<open>gf2p127_add a b\<close> and
  of \<open>gf2p127_mul a b\<close> is 0, and so is bit 127 of the result of every other producing operation,
  the doubling step \<open>gf2p127_mul_10\<close> among them.
\<close>

theorem representation_invariant:
  assumes "\<not> bit a 127" "\<not> bit b 127"
  shows "\<not> bit (gf2p127_add a b) 127 \<and> \<not> bit (gf2p127_mul a b) 127
    \<and> \<not> bit (gf2p127_mul_10 a) 127 \<and> \<not> bit (gf2p127_mul_11 a) 127
    \<and> \<not> bit (gf2p127_mul_01 a) 127 \<and> \<not> bit (gf2p127_mul_00 a) 127
    \<and> \<not> bit (gf2p127_mul_bit a c) 127
    \<and> \<not> bit gf2p127_zero 127 \<and> \<not> bit (gf2p127_from_int v) 127"
  using assms
  by (simp add: add_bit127 mul_bit127 mul_10_bit127 mul_11_bit127 mul_bit_bit127 from_int_bit127
      gf2p127_mul_01_def gf2p127_mul_00_def gf2p127_zero_def mm_setzero_si128_def)

text \<open>The theorem at \<open>a = x^126 + x^2 + 1\<close> and \<open>b = x^126 + x + 1\<close>.\<close>

theorem representation_invariant_witness:
  "\<not> bit (2 ^ 126 + 5 :: gf2p127_t) 127 \<and> \<not> bit (2 ^ 126 + 3 :: gf2p127_t) 127
   \<and> \<not> bit (gf2p127_add (2 ^ 126 + 5) (2 ^ 126 + 3)) 127
   \<and> \<not> bit (gf2p127_mul (2 ^ 126 + 5) (2 ^ 126 + 3)) 127
   \<and> \<not> bit (gf2p127_mul_10 (2 ^ 126 + 5)) 127"
proof -
  have a: "\<not> bit (2 ^ 126 + 5 :: gf2p127_t) 127"
    by simp
  have b: "\<not> bit (2 ^ 126 + 3 :: gf2p127_t) 127"
    by simp
  show ?thesis
    using a b representation_invariant [OF a b] by blast
qed

lemma unat_from_int_small:
  "unat (gf2p127_from_int 0) = 0" "unat (gf2p127_from_int 1) = 1"
  "unat (gf2p127_from_int 2) = 2" "unat (gf2p127_from_int 3) = 3"
  by (simp_all add: gf2p127_from_int_def mm_cvtsi32_si128_def)

lemma clprod_2_right: "clprod a 2 = push_bit 1 a"
  using clprod_push_bit_right [of a 1 1] by simp

lemma clprod_3_right: "clprod a 3 = a XOR push_bit 1 a"
proof -
  have "(3::nat) = 1 XOR 2" by simp
  then have "clprod a 3 = clprod a 1 XOR clprod a 2"
    by (simp only: clprod_xor_right)
  then show ?thesis
    by (simp add: clprod_2_right del: push_bit_Suc)
qed

lemma nat_take_bit_top:
  fixes x :: nat
  assumes "x < 2 ^ 128"
  shows "x = take_bit 127 x XOR push_bit 127 (of_bool (bit x 127))"
proof (rule bit_eqI)
  fix n :: nat
  consider "n < 127" | "n = 127" | "128 \<le> n" by linarith
  then show "bit x n \<longleftrightarrow> bit (take_bit 127 x XOR push_bit 127 (of_bool (bit x 127))) n"
  proof cases
    case 1
    then show ?thesis by (simp add: bit_simps)
  next
    case 2
    then show ?thesis by (simp add: bit_simps)
  next
    case 3
    then have "(2::nat) ^ 128 \<le> 2 ^ n"
      by (intro power_increasing) simp_all
    with assms have "x < 2 ^ n" by (rule less_le_trans)
    then have "\<not> bit x n" by (rule nat_not_bit_less)
    then show ?thesis using 3 by (simp add: bit_simps)
  qed
qed

lemma mul_10_cong: "\<not> bit a 127 \<Longrightarrow> gf2_cong (push_bit 1 (unat a)) (unat (gf2p127_mul_10 a))"
proof -
  assume a: "\<not> bit a 127"
  define A t where "A = unat a" and "t = bit a 126"
  have "A < 2 ^ 127" unfolding A_def using a by (rule word128_less)
  then have X: "push_bit 1 A < 2 ^ 128"
    using nat_push_bit_less [of A 127 1] by simp
  have bt: "bit (push_bit 1 A) 127 \<longleftrightarrow> t"
    unfolding A_def t_def by (simp add: bit_simps bit_unsigned_iff del: push_bit_Suc)
  have tk: "take_bit 128 (push_bit 1 A) = push_bit 1 A"
    using X by (rule take_bit_nat_eq_self)
  have "unat (gf2p127_mul_10 a) =
      take_bit 127 (take_bit 128 (push_bit 1 A)) XOR
      take_bit 128 (push_bit 63 (of_bool t)) XOR of_bool t"
    unfolding mul_10_bits A_def t_def
    by (simp add: unsigned_xor_eq unsigned_take_bit_eq unsigned_push_bit_eq
        del: push_bit_Suc One_nat_def)
  also have "take_bit 128 (push_bit 63 (of_bool t)) = (push_bit 63 (of_bool t) :: nat)"
    by (cases t) simp_all
  finally have U: "unat (gf2p127_mul_10 a) =
      take_bit 127 (push_bit 1 A) XOR push_bit 63 (of_bool t) XOR of_bool t"
    unfolding tk .
  have "push_bit 1 A XOR unat (gf2p127_mul_10 a) =
      (take_bit 127 (push_bit 1 A) XOR push_bit 127 (of_bool t)) XOR
      (take_bit 127 (push_bit 1 A) XOR push_bit 63 (of_bool t) XOR of_bool t)"
    unfolding U using nat_take_bit_top [OF X] unfolding bt by simp
  also have "\<dots> = clprod fpoly (of_bool t)"
    unfolding clprod_fpoly by (simp add: ac_simps xor_cancel_left)
  finally show ?thesis
    unfolding gf2_cong_def A_def by blast
qed

text \<open>
  Claim C4.  For every element \<open>a\<close> with bit 127 clear, the general multiplier applied to the
  lifted constants 0, 1, 2 and 3 agrees with \<open>gf2p127_mul_00\<close>, \<open>gf2p127_mul_01\<close>,
  \<open>gf2p127_mul_10\<close> and \<open>gf2p127_mul_11\<close>.
\<close>

theorem constant_multiplier_consistency:
  assumes "\<not> bit a 127"
  shows "gf2p127_mul a (gf2p127_from_int 0) = gf2p127_mul_00 a
    \<and> gf2p127_mul a (gf2p127_from_int 1) = gf2p127_mul_01 a
    \<and> gf2p127_mul a (gf2p127_from_int 2) = gf2p127_mul_10 a
    \<and> gf2p127_mul a (gf2p127_from_int 3) = gf2p127_mul_11 a"
proof (intro conjI)
  show "gf2p127_mul a (gf2p127_from_int 0) = gf2p127_mul_00 a"
    using assms
    by (intro mul_charI from_int_bit127)
      (simp_all add: unat_from_int_small gf2p127_mul_00_def mm_setzero_si128_def gf2_cong_refl)
  show "gf2p127_mul a (gf2p127_from_int 1) = gf2p127_mul_01 a"
    using assms
    by (intro mul_charI from_int_bit127)
      (simp_all add: unat_from_int_small gf2p127_mul_01_def gf2_cong_refl)
  show "gf2p127_mul a (gf2p127_from_int 2) = gf2p127_mul_10 a"
  proof (rule mul_charI)
    show "gf2_cong (clprod (unat a) (unat (gf2p127_from_int 2))) (unat (gf2p127_mul_10 a))"
      using mul_10_cong [OF assms] by (simp only: unat_from_int_small clprod_2_right)
  qed (rule assms from_int_bit127 mul_10_bit127)+
  have "gf2_cong (unat a XOR push_bit 1 (unat a)) (unat a XOR unat (gf2p127_mul_10 a))"
    using assms by (intro gf2_cong_xor gf2_cong_refl mul_10_cong)
  then have "gf2_cong (clprod (unat a) (unat (gf2p127_from_int 3))) (unat (gf2p127_mul_11 a))"
    by (simp only: unat_from_int_small clprod_3_right gf2p127_mul_11_def gf2p127_mul_01_def
        Let_def mm_xor_si128_def unsigned_xor_eq)
  then show "gf2p127_mul a (gf2p127_from_int 3) = gf2p127_mul_11 a"
    using assms by (intro mul_charI from_int_bit127 mul_11_bit127)
qed

text \<open>The theorem at \<open>a = x^126 + x^2 + 1\<close>.\<close>

theorem constant_multiplier_consistency_witness:
  "\<not> bit (2 ^ 126 + 5 :: gf2p127_t) 127
   \<and> gf2p127_mul (2 ^ 126 + 5) (gf2p127_from_int 0) = gf2p127_mul_00 (2 ^ 126 + 5)
   \<and> gf2p127_mul (2 ^ 126 + 5) (gf2p127_from_int 1) = gf2p127_mul_01 (2 ^ 126 + 5)
   \<and> gf2p127_mul (2 ^ 126 + 5) (gf2p127_from_int 2) = gf2p127_mul_10 (2 ^ 126 + 5)
   \<and> gf2p127_mul (2 ^ 126 + 5) (gf2p127_from_int 3) = gf2p127_mul_11 (2 ^ 126 + 5)"
proof -
  have a: "\<not> bit (2 ^ 126 + 5 :: gf2p127_t) 127"
    by simp
  show ?thesis
    using a constant_multiplier_consistency [OF a] by blast
qed

text \<open>
  Claim C6.  For all elements \<open>a\<close>, \<open>b\<close>, \<open>c\<close> with bit 127 clear, multiplication distributes over
  addition.
\<close>

theorem mul_distributes_over_add:
  assumes "\<not> bit a 127" "\<not> bit b 127" "\<not> bit c 127"
  shows "gf2p127_mul a (gf2p127_add b c) = gf2p127_add (gf2p127_mul a b) (gf2p127_mul a c)"
proof (rule mul_charI)
  show "\<not> bit a 127" by fact
  show "\<not> bit (gf2p127_add b c) 127"
    using assms(2,3) by (rule add_bit127)
  show "\<not> bit (gf2p127_add (gf2p127_mul a b) (gf2p127_mul a c)) 127"
    using assms by (intro add_bit127 mul_bit127)
  have "gf2_cong (clprod (unat a) (unat b) XOR clprod (unat a) (unat c))
      (unat (gf2p127_mul a b) XOR unat (gf2p127_mul a c))"
    using assms by (intro gf2_cong_xor mul_cong)
  then show "gf2_cong (clprod (unat a) (unat (gf2p127_add b c)))
      (unat (gf2p127_add (gf2p127_mul a b) (gf2p127_mul a c)))"
    by (simp add: gf2p127_add_def mm_xor_si128_def unsigned_xor_eq clprod_xor_right)
qed

text \<open>The theorem at \<open>a = x^126 + x^2 + 1\<close>, \<open>b = x^100 + x + 1\<close> and
  \<open>c = x^126 + x^64\<close>.\<close>

theorem mul_distributes_over_add_witness:
  "\<not> bit (2 ^ 126 + 5 :: gf2p127_t) 127 \<and> \<not> bit (2 ^ 100 + 3 :: gf2p127_t) 127
   \<and> \<not> bit (2 ^ 126 + 2 ^ 64 :: gf2p127_t) 127
   \<and> gf2p127_mul (2 ^ 126 + 5) (gf2p127_add (2 ^ 100 + 3) (2 ^ 126 + 2 ^ 64)) =
       gf2p127_add (gf2p127_mul (2 ^ 126 + 5) (2 ^ 100 + 3))
         (gf2p127_mul (2 ^ 126 + 5) (2 ^ 126 + 2 ^ 64))"
proof -
  have a: "\<not> bit (2 ^ 126 + 5 :: gf2p127_t) 127"
    by simp
  have b: "\<not> bit (2 ^ 100 + 3 :: gf2p127_t) 127"
    by simp
  have c: "\<not> bit (2 ^ 126 + 2 ^ 64 :: gf2p127_t) 127"
    by simp
  show ?thesis
    using a b c mul_distributes_over_add [OF a b c] by blast
qed

section \<open>The textual rendering\<close>

lemma and_1_bit0: "w AND 1 \<noteq> 0 \<longleftrightarrow> bit w 0" for w :: m128i
proof -
  have "w AND 1 = of_bool (bit w 0)"
    by (rule bit_word_eqI) (auto simp add: bit_simps)
  then show ?thesis by simp
qed

lemma show_loop_eq:
  "128 - k = n \<Longrightarrow> k \<le> 128 \<Longrightarrow>
   show_loop k (drop_bit k a) str =
     str @ concat (map (\<lambda>k. '' + 2^'' @ show_dec k) (filter (bit a) [k..<128]))"
proof (induction n arbitrary: k str)
  case 0
  then have "k = 128" by simp
  then show ?case by (simp add: show_loop.simps [of 128])
next
  case (Suc n)
  then have k: "k < 128" by simp
  have b: "drop_bit k a AND 1 \<noteq> 0 \<longleftrightarrow> bit a k"
    by (simp add: and_1_bit0 bit_simps)
  have d: "drop_bit 1 (drop_bit k a) = drop_bit (Suc k) a"
    by (simp add: drop_bit_drop_bit del: drop_bit_Suc)
  have IH: "show_loop (Suc k) (drop_bit (Suc k) a) s =
      s @ concat (map (\<lambda>k. '' + 2^'' @ show_dec k) (filter (bit a) [Suc k..<128]))" for s
    using Suc.prems k by (intro Suc.IH) simp_all
  have u: "[k..<128] = k # [Suc k..<128]"
    using k by (rule upt_conv_Cons)
  show ?case
    unfolding show_loop.simps [of k] d b IH u using k by simp
qed

text \<open>What \<open>show_dec\<close> writes for a number below 1000: its one, two or three decimal digits,
  most significant first, with no leading zero.\<close>

lemma digit_char_dec: "d < 10 \<Longrightarrow> digit_char d = ''0123456789'' ! d"
proof -
  assume "d < 10"
  then have "d \<in> {0, 1, 2, 3, 4, 5, 6, 7, 8, 9}"
    by (simp only: insert_iff empty_iff) presburger
  then show ?thesis
    by (auto simp add: digit_char_def)
qed

lemma show_dec_1: "k < 10 \<Longrightarrow> show_dec k = [''0123456789'' ! k]"
  by (subst show_dec.simps) (simp add: digit_char_dec)

lemma show_dec_2:
  assumes "10 \<le> k" "k < 100"
  shows "show_dec k = [''0123456789'' ! (k div 10), ''0123456789'' ! (k mod 10)]"
proof -
  have "k div 10 < 10" using assms by simp
  then have "show_dec (k div 10) = [''0123456789'' ! (k div 10)]"
    by (rule show_dec_1)
  moreover have "show_dec k = show_dec (k div 10) @ [digit_char (k mod 10)]"
    using assms by (subst show_dec.simps) simp
  ultimately show ?thesis
    by (simp add: digit_char_dec)
qed

lemma show_dec_3:
  assumes "100 \<le> k" "k < 1000"
  shows "show_dec k =
    [''0123456789'' ! (k div 100), ''0123456789'' ! (k div 10 mod 10), ''0123456789'' ! (k mod 10)]"
proof -
  have "10 \<le> k div 10" "k div 10 < 100" using assms by simp_all
  then have "show_dec (k div 10) =
      [''0123456789'' ! (k div 10 div 10), ''0123456789'' ! (k div 10 mod 10)]"
    by (rule show_dec_2)
  moreover have "k div 10 div 10 = k div 100"
    by (simp add: div_mult2_eq [symmetric])
  moreover have "show_dec k = show_dec (k div 10) @ [digit_char (k mod 10)]"
    using assms by (subst show_dec.simps) simp
  ultimately show ?thesis
    by (simp add: digit_char_dec)
qed

lemma show_dec_digits:
  "k < 1000 \<Longrightarrow>
   show_dec k =
     map ((!) ''0123456789'')
       (if k < 10 then [k]
        else if k < 100 then [k div 10, k mod 10]
        else [k div 100, k div 10 mod 10, k mod 10])"
  using show_dec_1 [of k] show_dec_2 [of k] show_dec_3 [of k] by simp

text \<open>
  Claim C9.  For every element \<open>a\<close>, \<open>gf2p127_show a\<close> is \<open>1\<close> or \<open>0\<close> according to bit 0 of \<open>a\<close>,
  followed, for each set bit \<open>k\<close> from 1 to 127 in increasing order, by \<open> + 2^\<close> and the decimal
  numeral of \<open>k\<close>, written out digit by digit.
\<close>

theorem gf2p127_show_spec:
  "gf2p127_show a =
     (if bit a 0 then ''1'' else ''0'')
       @ concat (map (\<lambda>k. '' + 2^'' @
                   map ((!) ''0123456789'')
                     (if k < 10 then [k]
                      else if k < 100 then [k div 10, k mod 10]
                      else [k div 100, k div 10 mod 10, k mod 10]))
           (filter (bit a) [1..<128]))"
proof -
  have m: "map (\<lambda>k. '' + 2^'' @ show_dec k) (filter (bit a) [1..<128]) =
      map (\<lambda>k. '' + 2^'' @
             map ((!) ''0123456789'')
               (if k < 10 then [k]
                else if k < 100 then [k div 10, k mod 10]
                else [k div 100, k div 10 mod 10, k mod 10]))
        (filter (bit a) [1..<128])"
  proof (rule map_cong [OF refl])
    fix k
    assume "k \<in> set (filter (bit a) [1..<128])"
    then have "k < 1000" by simp
    then show "'' + 2^'' @ show_dec k =
        '' + 2^'' @
          map ((!) ''0123456789'')
            (if k < 10 then [k]
             else if k < 100 then [k div 10, k mod 10]
             else [k div 100, k div 10 mod 10, k mod 10])"
      by (simp only: show_dec_digits)
  qed
  have "gf2p127_show a =
      (if bit a 0 then ''1'' else ''0'')
        @ concat (map (\<lambda>k. '' + 2^'' @ show_dec k) (filter (bit a) [1..<128]))"
    using show_loop_eq [of 1 127 a "if bit a 0 then ''1'' else ''0''"]
    by (simp add: gf2p127_show_def and_1_bit0 del: drop_bit_Suc)
  then show ?thesis
    unfolding m .
qed

text \<open>The theorem at the element with bits 1, 7, 100 and 127 set: exponents of one, two and
  three digits.\<close>

theorem gf2p127_show_spec_witness:
  "gf2p127_show (2 ^ 127 + 2 ^ 100 + 2 ^ 7 + 2) = ''0 + 2^1 + 2^7 + 2^100 + 2^127''"
  unfolding gf2p127_show_spec by code_simp

lemma below_16_cases:
  "d < 16 \<Longrightarrow> d \<in> {0, 1, 2, 3, 4, 5, 6, 7, 8, 9, 10, 11, 12, 13, 14, 15::nat}"
  by (simp only: insert_iff empty_iff) presburger

lemma hex_val_digit_char: "d < 16 \<Longrightarrow> hex_val (digit_char d) = Some d"
  by (drule below_16_cases) (auto simp add: hex_val_def digit_char_def upt_rec)

lemma digit_char_hex: "d < 16 \<Longrightarrow> digit_char d \<in> set ''0123456789abcdef''"
  by (drule below_16_cases) (auto simp add: digit_char_def)

lemma parse_hex_nat_append:
  "parse_hex_nat acc (xs @ ys) =
     (case parse_hex_nat acc xs of None \<Rightarrow> None | Some a \<Rightarrow> parse_hex_nat a ys)"
  by (induction xs arbitrary: acc) (auto split: option.splits)

lemma parse_hex_nat_zeros: "parse_hex_nat 0 (replicate k CHR ''0'') = Some 0"
proof (induction k)
  case 0
  show ?case by simp
next
  case (Suc k)
  have "hex_val CHR ''0'' = Some 0"
    using hex_val_digit_char [of 0] by (simp add: digit_char_def)
  then show ?case using Suc by simp
qed

lemma parse_hex_digits:
  "parse_hex_nat acc (hex_digits n) = Some (acc * 16 ^ length (hex_digits n) + n)"
proof (induction n arbitrary: acc rule: hex_digits.induct)
  case (1 n)
  show ?case
  proof (cases "n = 0")
    case True
    then show ?thesis by (simp add: hex_digits.simps [of 0])
  next
    case False
    have e: "hex_digits n = hex_digits (n div 16) @ [digit_char (n mod 16)]"
      using False by (simp add: hex_digits.simps [of n])
    have "parse_hex_nat acc (hex_digits (n div 16)) =
        Some (acc * 16 ^ length (hex_digits (n div 16)) + n div 16)"
      using False by (rule 1)
    then show ?thesis
      unfolding e by (simp add: parse_hex_nat_append hex_val_digit_char algebra_simps)
  qed
qed

lemma length_hex_digits: "n < 16 ^ k \<Longrightarrow> length (hex_digits n) \<le> k"
proof (induction n arbitrary: k rule: hex_digits.induct)
  case (1 n)
  show ?case
  proof (cases "n = 0")
    case True
    then show ?thesis by (simp add: hex_digits.simps [of 0])
  next
    case False
    with 1(2) obtain k' where k: "k = Suc k'"
      by (cases k) auto
    with 1(2) have "n div 16 < 16 ^ k'"
      by (simp add: less_mult_imp_div_less mult.commute)
    with False have "length (hex_digits (n div 16)) \<le> k'"
      by (rule 1(1))
    then show ?thesis
      using False k by (simp add: hex_digits.simps [of n])
  qed
qed

lemma set_hex_digits: "set (hex_digits n) \<subseteq> set ''0123456789abcdef''"
proof (induction n rule: hex_digits.induct)
  case (1 n)
  show ?case
  proof (cases "n = 0")
    case True
    then show ?thesis by (simp add: hex_digits.simps [of 0])
  next
    case False
    have "digit_char (n mod 16) \<in> set ''0123456789abcdef''"
      by (rule digit_char_hex) simp
    then show ?thesis
      using False 1 by (simp add: hex_digits.simps [of n])
  qed
qed

lemma length_hex_digits_64: "length (hex_digits (unat w)) \<le> 16" for w :: "64 word"
proof -
  have "unat w < 2 ^ 64" using unsigned_less [of w] by simp
  also have "(2::nat) ^ 64 = 16 ^ 16" by simp
  finally show ?thesis by (rule length_hex_digits)
qed

lemma length_fmt_16llx: "length (fmt_16llx w) = 16"
  using length_hex_digits_64 [of w] by (simp add: fmt_16llx_def Let_def)

lemma parse_fmt_16llx: "parse_hex_nat 0 (fmt_16llx w) = Some (unat w)"
  by (simp add: fmt_16llx_def Let_def parse_hex_nat_append parse_hex_nat_zeros parse_hex_digits)

lemma set_fmt_16llx: "set (fmt_16llx w) \<subseteq> set ''0123456789abcdef''"
proof -
  have "set (replicate k CHR ''0'') \<subseteq> set ''0123456789abcdef''" for k
    by (auto simp add: set_replicate_conv_if)
  then show ?thesis
    using set_hex_digits [of "unat w"] unfolding fmt_16llx_def Let_def set_append
    by blast
qed

lemma hex_halves: "gf2p127_hex a = fmt_16llx (hi64 a) @ fmt_16llx (lo64 a)"
  by (simp add: gf2p127_hex_def mm_extract_epi64_def)

text \<open>
  Claim C7.  For every element \<open>a\<close>, \<open>gf2p127_hex a\<close> is exactly 32 hexadecimal characters, the 16
  digits of the high lane first and the 16 digits of the low lane after them, each lane padded
  with zeros, and reading those digits back gives \<open>a\<close>.
\<close>

theorem gf2p127_hex_roundtrip:
  "length (gf2p127_hex a) = 32
   \<and> set (gf2p127_hex a) \<subseteq> set ''0123456789abcdef''
   \<and> take 16 (gf2p127_hex a) = fmt_16llx (hi64 a)
   \<and> drop 16 (gf2p127_hex a) = fmt_16llx (lo64 a)
   \<and> length (fmt_16llx (hi64 a)) = 16 \<and> length (fmt_16llx (lo64 a)) = 16
   \<and> parse_hex_nat 0 (fmt_16llx (hi64 a)) = Some (unat (hi64 a))
   \<and> parse_hex_nat 0 (fmt_16llx (lo64 a)) = Some (unat (lo64 a))
   \<and> parse_hex (gf2p127_hex a) = Some a"
proof (intro conjI)
  show "length (gf2p127_hex a) = 32"
    by (simp add: hex_halves length_fmt_16llx)
  show "set (gf2p127_hex a) \<subseteq> set ''0123456789abcdef''"
    unfolding hex_halves set_append
    using set_fmt_16llx [of "hi64 a"] set_fmt_16llx [of "lo64 a"] by blast
  show t: "take 16 (gf2p127_hex a) = fmt_16llx (hi64 a)"
    by (simp add: hex_halves length_fmt_16llx)
  show d: "drop 16 (gf2p127_hex a) = fmt_16llx (lo64 a)"
    by (simp add: hex_halves length_fmt_16llx)
  show "parse_hex (gf2p127_hex a) = Some a"
    unfolding parse_hex_def t d
    by (simp add: hex_halves length_fmt_16llx parse_fmt_16llx)
qed (rule length_fmt_16llx parse_fmt_16llx)+

section \<open>Lifting a machine integer\<close>

lemma sint_nonneg: "0 \<le> sint v \<Longrightarrow> sint v = uint v" for v :: "'a::len word"
proof -
  assume nn: "0 \<le> sint v"
  have "sint v < 2 ^ (LENGTH('a) - 1)" by (rule sint_lt)
  moreover have "(2::int) ^ (LENGTH('a) - 1) \<le> 2 ^ LENGTH('a)"
    by (rule power_increasing) simp_all
  ultimately have "sint v < 2 ^ LENGTH('a)" by (rule less_le_trans)
  with nn have "take_bit LENGTH('a) (sint v) = sint v"
    by (rule take_bit_int_eq_self)
  then show ?thesis by (simp add: uint_sint)
qed

lemma uint_from_int: "uint (gf2p127_from_int v) = uint v"
  unfolding gf2p127_from_int_def mm_cvtsi32_si128_def
  by (rule uint_up_ucast) (simp add: is_up)

lemma from_int_hi64: "hi64 (gf2p127_from_int v) = 0"
  by (rule bit_word_eqI) (simp add: bit_hi64 from_int_bit)

lemma from_int_lo64: "lo64 (gf2p127_from_int v) = ucast v"
  by (rule bit_word_eqI) (auto simp add: bit_lo64 from_int_bit bit_simps dest: bit_imp_le_length)

text \<open>
  Claim C8.  For every non-negative \<^verbatim>\<open>int\<close> \<open>v\<close>, \<open>gf2p127_from_int v\<close> is the element whose value,
  read as a number, is \<open>v\<close>: its low 32 bits are those of \<open>v\<close>, all other bits are zero, and the
  value is below the modulus, so nothing is reduced.
\<close>

theorem gf2p127_from_int_spec:
  assumes "0 \<le> sint v"
  shows "uint (gf2p127_from_int v) = sint v
    \<and> lo64 (gf2p127_from_int v) = ucast v \<and> hi64 (gf2p127_from_int v) = 0
    \<and> (\<forall>n. bit (gf2p127_from_int v) n \<longleftrightarrow> n < 32 \<and> bit v n)
    \<and> unat (gf2p127_from_int v) < fpoly"
proof (intro conjI allI)
  show u: "uint (gf2p127_from_int v) = sint v"
    using assms by (simp add: uint_from_int sint_nonneg)
  show "lo64 (gf2p127_from_int v) = ucast v"
    by (rule from_int_lo64)
  show "hi64 (gf2p127_from_int v) = 0"
    by (rule from_int_hi64)
  show "bit (gf2p127_from_int v) n \<longleftrightarrow> n < 32 \<and> bit v n" for n
    by (rule from_int_bit)
  have "unat (gf2p127_from_int v) < 2 ^ 127"
    by (rule word128_less) (rule from_int_bit127)
  also have "(2::nat) ^ 127 < fpoly"
    by (simp add: fpoly_def)
  finally show "unat (gf2p127_from_int v) < fpoly" .
qed

text \<open>The theorem at \<open>v = 3\<close>.\<close>

theorem gf2p127_from_int_spec_witness:
  "0 \<le> sint (3 :: 32 word) \<and> uint (gf2p127_from_int 3) = 3
   \<and> lo64 (gf2p127_from_int 3) = 3 \<and> hi64 (gf2p127_from_int 3) = 0"
proof -
  have a: "0 \<le> sint (3 :: 32 word)" by simp
  show ?thesis
    using a gf2p127_from_int_spec [OF a] by simp
qed

end
